theory Spec2Isabelle
  imports Main "HOL-Library.Multiset" "HOL-Library.Sublist" "HOL-Library.Product_Lexorder"
begin

section \<open>Data model (main.ts, lines 3--17)\<close>

text \<open>
  TypeScript's \<open>number\<close> fields hold integers throughout the program (room numbers, floors,
  0-based positions), so they are modelled as unbounded \<open>int\<close>. The fields \<open>id\<close> and
  \<open>floor\<close> carry the suffix \<open>_room\<close> because HOL already has constants of those names;
  for the same reason the parameter \<open>count\<close> is written \<open>cnt\<close> and the local \<open>sorted\<close>
  is written \<open>sortedRooms\<close>.
\<close>

datatype RoomStatus = Free | Booked | Blocked

record Room =
  id_room :: int
  floor_room :: int
  indexOnFloor :: int
  status :: RoomStatus

record BookingResult =
  rooms :: "Room list"
  totalTravelTime :: int

section \<open>Array and Map primitives of the host language\<close>

text \<open>
  \<open>Array.prototype.slice(begin, end)\<close>: a negative index counts from the end of the
  array and both indices are clamped into the array.
\<close>

definition slice :: "'a list \<Rightarrow> int \<Rightarrow> int \<Rightarrow> 'a list" where
  "slice xs b e =
     (let len = int (length xs);
          k = (if b < 0 then max (len + b) 0 else min b len);
          final = (if e < 0 then max (len + e) 0 else min e len)
      in take (nat (final - k)) (drop (nat k) xs))"

text \<open>
  \<open>Array.prototype.sort(cmp)\<close> is a stable sort: \<open>a\<close> stays in front of \<open>b\<close> when
  \<open>cmp a b \<le> 0\<close>. It is modelled as a stable insertion sort driven by the comparator.
\<close>

fun insertBy :: "('a \<Rightarrow> 'a \<Rightarrow> int) \<Rightarrow> 'a \<Rightarrow> 'a list \<Rightarrow> 'a list" where
  "insertBy cmp x [] = [x]"
| "insertBy cmp x (y # ys) = (if cmp x y \<le> 0 then x # y # ys else y # insertBy cmp x ys)"

definition sortBy :: "('a \<Rightarrow> 'a \<Rightarrow> int) \<Rightarrow> 'a list \<Rightarrow> 'a list" where
  "sortBy cmp xs = foldr (insertBy cmp) xs []"

text \<open>
  A \<open>Map<number, Room[]>\<close> is an association list in insertion order, which is the order
  \<open>entries()\<close> iterates in. \<open>set\<close> on a present key keeps the key's place, on a new key
  appends it.
\<close>

type_synonym FloorMap = "(int \<times> Room list) list"

definition map_has :: "FloorMap \<Rightarrow> int \<Rightarrow> bool" where
  "map_has m k = (map_of m k \<noteq> None)"

fun map_set :: "FloorMap \<Rightarrow> int \<Rightarrow> Room list \<Rightarrow> FloorMap" where
  "map_set [] k v = [(k, v)]"
| "map_set (p # ps) k v = (if fst p = k then (k, v) # ps else p # map_set ps k v)"

definition map_get :: "FloorMap \<Rightarrow> int \<Rightarrow> Room list" where
  "map_get m k = (case map_of m k of Some v \<Rightarrow> v | None \<Rightarrow> [])"

section \<open>The hotel layout: \<open>buildHotelRooms\<close> (lines 20--49)\<close>

definition buildHotelRooms :: "Room list" where
  "buildHotelRooms =
     (let rooms = fold (\<lambda>floor rooms.
                    fold (\<lambda>i rooms.
                      let roomNumber = floor * 100 + (i + 1)
                      in rooms @ [\<lparr>id_room = roomNumber, floor_room = floor,
                                   indexOnFloor = i, status = Free\<rparr>])
                      (map int [0..<10]) rooms)
                    (map int [1..<10]) [];
          topFloor = 10
      in fold (\<lambda>i rooms.
           let roomNumber = 1001 + i
           in rooms @ [\<lparr>id_room = roomNumber, floor_room = topFloor,
                        indexOnFloor = i, status = Free\<rparr>])
           (map int [0..<7]) rooms)"

section \<open>The travel-time metric (lines 52--70)\<close>

definition travelTimeBetween :: "Room \<Rightarrow> Room \<Rightarrow> int" where
  "travelTimeBetween a b =
     (let vertical = \<bar>floor_room a - floor_room b\<bar> * 2;
          horizontal = \<bar>indexOnFloor a - indexOnFloor b\<bar> * 1
      in vertical + horizontal)"

text \<open>
  The running minimum \<open>best\<close> starts at \<open>Number.POSITIVE_INFINITY\<close>, which is \<open>None\<close> here;
  every integer is below it.
\<close>

definition below :: "int \<Rightarrow> int option \<Rightarrow> bool" where
  "below t best = (case best of None \<Rightarrow> True | Some b \<Rightarrow> t < b)"

function pairs_inner :: "Room list \<Rightarrow> nat \<Rightarrow> nat \<Rightarrow> int option \<Rightarrow> int option" where
  "pairs_inner rs i j best =
     (if j < length rs
      then let t = travelTimeBetween (rs ! i) (rs ! j)
           in pairs_inner rs i (j + 1) (if below t best then Some t else best)
      else best)"
  by pat_completeness auto
termination
  by (relation "measure (\<lambda>(rs, i, j, best). length rs - j)") auto

function pairs_outer :: "Room list \<Rightarrow> nat \<Rightarrow> int option \<Rightarrow> int option" where
  "pairs_outer rs i best =
     (if i < length rs
      then pairs_outer rs (i + 1) (pairs_inner rs i (i + 1) best)
      else best)"
  by pat_completeness auto
termination
  by (relation "measure (\<lambda>(rs, i, best). length rs - i)") auto

definition totalTravelTimeForRooms :: "Room list \<Rightarrow> int" where
  "totalTravelTimeForRooms rs =
     (if length rs \<le> 1 then 0
      else case pairs_outer rs 0 None of None \<Rightarrow> 0 | Some best \<Rightarrow> best)"

section \<open>The allocator: \<open>allocateRooms\<close> (lines 73--138)\<close>

text \<open>Lines 82--86: the free rooms are partitioned by floor, in order of first appearance.\<close>

definition roomsByFloor :: "Room list \<Rightarrow> FloorMap" where
  "roomsByFloor freeRooms =
     fold (\<lambda>r m.
        let m1 = (if \<not> map_has m (floor_room r) then map_set m (floor_room r) [] else m)
        in map_set m1 (floor_room r) (map_get m1 (floor_room r) @ [r]))
       freeRooms []"

text \<open>Lines 94--101: the sliding window over one floor's sorted free rooms.\<close>

function window_loop ::
  "Room list \<Rightarrow> int \<Rightarrow> nat \<Rightarrow> BookingResult option \<Rightarrow> BookingResult option" where
  "window_loop sortedRooms cnt start bestSingleFloor =
     (if int start + cnt \<le> int (length sortedRooms)
      then let candidate = slice sortedRooms (int start) (int start + cnt);
               time = totalTravelTimeForRooms candidate;
               candidateResult = \<lparr>rooms = candidate, totalTravelTime = time\<rparr>
           in window_loop sortedRooms cnt (start + 1)
                (case bestSingleFloor of
                   None \<Rightarrow> Some candidateResult
                 | Some b \<Rightarrow> if time < totalTravelTime b then Some candidateResult
                             else Some b)
      else bestSingleFloor)"
  by pat_completeness auto
termination
  by (relation "measure (\<lambda>(sortedRooms, cnt, start, best).
        nat (int (length sortedRooms) - cnt + 1 - int start))") auto

text \<open>Lines 88--102: the loop over the floors of the map.\<close>

fun floors_loop :: "FloorMap \<Rightarrow> int \<Rightarrow> BookingResult option \<Rightarrow> BookingResult option" where
  "floors_loop [] cnt bestSingleFloor = bestSingleFloor"
| "floors_loop ((floor, floorRooms) # rest) cnt bestSingleFloor =
     (let sortedRooms = sortBy (\<lambda>a b. indexOnFloor a - indexOnFloor b) floorRooms
      in if int (length sortedRooms) < cnt then floors_loop rest cnt bestSingleFloor
         else floors_loop rest cnt (window_loop sortedRooms cnt 0 bestSingleFloor))"

text \<open>
  Lines 121--134: \<open>backtrack\<close> and its \<open>for\<close> loop. The array \<open>chosen\<close> is pushed to before
  the recursive call and popped after it, so the callee sees \<open>chosen @ [candidatePool[i]]\<close>
  and the loop goes on with \<open>chosen\<close>; the variable \<open>bestMulti\<close> of the enclosing scope is
  threaded through.
\<close>

function backtrack ::
    "Room list \<Rightarrow> int \<Rightarrow> nat \<Rightarrow> Room list \<Rightarrow> BookingResult option \<Rightarrow> BookingResult option"
  and backtrack_for ::
    "Room list \<Rightarrow> int \<Rightarrow> nat \<Rightarrow> Room list \<Rightarrow> BookingResult option \<Rightarrow> BookingResult option"
  where
  "backtrack candidatePool cnt startIndex chosen bestMulti =
     (if int (length chosen) = cnt
      then let time = totalTravelTimeForRooms chosen
           in (case bestMulti of
                 None \<Rightarrow> Some \<lparr>rooms = chosen, totalTravelTime = time\<rparr>
               | Some b \<Rightarrow> if time < totalTravelTime b
                           then Some \<lparr>rooms = chosen, totalTravelTime = time\<rparr>
                           else Some b)
      else backtrack_for candidatePool cnt startIndex chosen bestMulti)"
| "backtrack_for candidatePool cnt i chosen bestMulti =
     (if i < length candidatePool
      then backtrack_for candidatePool cnt (i + 1) chosen
             (backtrack candidatePool cnt (i + 1) (chosen @ [candidatePool ! i]) bestMulti)
      else bestMulti)"
  by pat_completeness auto
termination
  by (relation "measure (\<lambda>x. case x of
          Inl (pool, cnt, start, chosen, best) \<Rightarrow> 2 * (length pool - start) + 1
        | Inr (pool, cnt, i, chosen, best) \<Rightarrow> 2 * (length pool - i))") auto

definition allocateRooms :: "Room list \<Rightarrow> int \<Rightarrow> BookingResult option" where
  "allocateRooms rs cnt =
     (if cnt \<le> 0 \<or> cnt > 5 then None
      else let freeRooms = filter (\<lambda>r. status r = Free) rs
           in if int (length freeRooms) < cnt then None
              else case floors_loop (roomsByFloor freeRooms) cnt None of
                     Some bestSingleFloor \<Rightarrow> Some bestSingleFloor
                   | None \<Rightarrow>
                       let minRooms = min (int (length freeRooms)) 20;
                           candidatePool =
                             slice (sortBy (\<lambda>a b. if floor_room a \<noteq> floor_room b
                                                   then floor_room a - floor_room b
                                                   else indexOnFloor a - indexOnFloor b)
                                      freeRooms) 0 minRooms
                       in backtrack candidatePool cnt 0 [] None)"

section \<open>Notions used to state and prove the properties\<close>

abbreviation isFree :: "Room \<Rightarrow> bool" where
  "isFree r \<equiv> status r = Free"

subsection \<open>The loops as folds\<close>

text \<open>One step of the running minimum of \<open>totalTravelTimeForRooms\<close>.\<close>

definition keep_min :: "int \<Rightarrow> int option \<Rightarrow> int option" where
  "keep_min t best = (if below t best then Some t else best)"

text \<open>
  The travel times of the pairs \<open>(i', j)\<close> with \<open>i \<le> i' < j\<close>, in the order the two nested
  loops visit them.
\<close>

definition pair_times :: "Room list \<Rightarrow> nat \<Rightarrow> int list" where
  "pair_times rs i =
     concat (map (\<lambda>i. map (\<lambda>j. travelTimeBetween (rs ! i) (rs ! j)) [Suc i..<length rs])
                 [i..<length rs])"

text \<open>
  A candidate room list with its travel time, and one step of the running best result of
  both phases: the candidate replaces the best so far only when it is strictly better.
\<close>

definition mkResult :: "Room list \<Rightarrow> BookingResult" where
  "mkResult c = \<lparr>rooms = c, totalTravelTime = totalTravelTimeForRooms c\<rparr>"

definition keep_better :: "Room list \<Rightarrow> BookingResult option \<Rightarrow> BookingResult option" where
  "keep_better c best =
     (case best of
        None \<Rightarrow> Some (mkResult c)
      | Some b \<Rightarrow> if totalTravelTimeForRooms c < totalTravelTime b then Some (mkResult c)
                  else Some b)"

text \<open>The windows of one floor from position \<open>start\<close> on, and those of all floors of a map.\<close>

definition windows :: "Room list \<Rightarrow> int \<Rightarrow> nat \<Rightarrow> Room list list" where
  "windows xs cnt start =
     map (\<lambda>s. take (nat cnt) (drop s xs)) [start..<nat (int (length xs) - cnt + 1)]"

definition floor_cands :: "FloorMap \<Rightarrow> int \<Rightarrow> Room list list" where
  "floor_cands m cnt =
     concat (map (\<lambda>(f, frs). windows (sortBy (\<lambda>a b. indexOnFloor a - indexOnFloor b) frs) cnt 0) m)"

text \<open>
  The keys of the floor map are the floors in order of first appearance; the value of a
  floor is the list of the free rooms on it; \<open>group_step\<close> is the body of the loop that
  builds the map.
\<close>

fun firsts :: "int list \<Rightarrow> int list" where
  "firsts [] = []"
| "firsts (x # xs) = x # filter (\<lambda>y. y \<noteq> x) (firsts xs)"

definition onFloor :: "int \<Rightarrow> Room list \<Rightarrow> Room list" where
  "onFloor f xs = filter (\<lambda>r. floor_room r = f) xs"

definition group_step :: "Room \<Rightarrow> FloorMap \<Rightarrow> FloorMap" where
  "group_step r m =
     (let m1 = (if \<not> map_has m (floor_room r) then map_set m (floor_room r) [] else m)
      in map_set m1 (floor_room r) (map_get m1 (floor_room r) @ [r]))"

text \<open>The candidates of Phase 1, floor by floor, and the comparator and pool of Phase 2.\<close>

definition phase1_cands :: "Room list \<Rightarrow> int \<Rightarrow> Room list list" where
  "phase1_cands freeRooms cnt =
     concat (map (\<lambda>f. windows (sortBy (\<lambda>a b. indexOnFloor a - indexOnFloor b)
                                   (onFloor f freeRooms)) cnt 0)
                 (firsts (map floor_room freeRooms)))"

definition byFloorThenIndex :: "Room \<Rightarrow> Room \<Rightarrow> int" where
  "byFloorThenIndex a b =
     (if floor_room a \<noteq> floor_room b then floor_room a - floor_room b
      else indexOnFloor a - indexOnFloor b)"

definition candidatePool :: "Room list \<Rightarrow> Room list" where
  "candidatePool freeRooms = take 20 (sortBy byFloorThenIndex freeRooms)"

subsection \<open>Phase 2 in the words of the specification\<close>

text \<open>
  The candidate pool: the free rooms sorted by floor, then by position on the floor, cut to
  the first 20.
\<close>

definition spec_candidatePool :: "Room list \<Rightarrow> Room list" where
  "spec_candidatePool rs =
     take 20 (sort_key (\<lambda>r. (floor_room r, indexOnFloor r)) (filter (\<lambda>r. status r = Free) rs))"

text \<open>
  The combinations of \<open>k\<close> elements of a list, in the order of a depth-first enumeration
  with increasing start index: first those that take the head, then those that skip it.
\<close>

fun combinations :: "nat \<Rightarrow> 'a list \<Rightarrow> 'a list list" where
  "combinations 0 xs = [[]]"
| "combinations (Suc k) [] = []"
| "combinations (Suc k) (x # xs) = map ((#) x) (combinations k xs) @ combinations (Suc k) xs"

subsection \<open>Concrete room lists\<close>

text \<open>
  A floor with two free rooms around a booked one and a free room on the next floor;
  the hotel with every room booked except 510 and 601; free rooms on four different floors.
\<close>

definition twoOnFloorOne :: "Room list" where
  "twoOnFloorOne =
     [\<lparr>id_room = 101, floor_room = 1, indexOnFloor = 0, status = Free\<rparr>,
      \<lparr>id_room = 102, floor_room = 1, indexOnFloor = 1, status = Booked\<rparr>,
      \<lparr>id_room = 103, floor_room = 1, indexOnFloor = 2, status = Free\<rparr>,
      \<lparr>id_room = 201, floor_room = 2, indexOnFloor = 0, status = Free\<rparr>]"

definition scenario_510_601 :: "Room list" where
  "scenario_510_601 =
     map (\<lambda>r. if id_room r = 510 \<or> id_room r = 601 then r else r\<lparr>status := Booked\<rparr>)
       buildHotelRooms"

definition onePerFloor :: "Room list" where
  "onePerFloor =
     [\<lparr>id_room = 705, floor_room = 7, indexOnFloor = 4, status = Free\<rparr>,
      \<lparr>id_room = 101, floor_room = 1, indexOnFloor = 0, status = Free\<rparr>,
      \<lparr>id_room = 102, floor_room = 1, indexOnFloor = 1, status = Booked\<rparr>,
      \<lparr>id_room = 402, floor_room = 4, indexOnFloor = 1, status = Free\<rparr>,
      \<lparr>id_room = 305, floor_room = 3, indexOnFloor = 4, status = Free\<rparr>]"

declare pairs_inner.simps [simp del] pairs_outer.simps [simp del] window_loop.simps [simp del]
  backtrack.simps [simp del] backtrack_for.simps [simp del]

section \<open>Facts about the primitives\<close>

lemma slice_window:
  "0 \<le> c \<Longrightarrow> int s + c \<le> int (length xs) \<Longrightarrow>
     slice xs (int s) (int s + c) = take (nat c) (drop s xs)"
  by (simp add: slice_def Let_def min_def)

lemma slice_prefix: "0 \<le> e \<Longrightarrow> slice xs 0 e = take (nat e) xs"
  by (simp add: slice_def Let_def min_def)

lemma mset_insertBy: "mset (insertBy c x xs) = add_mset x (mset xs)"
  by (induction xs) simp_all

lemma mset_sortBy: "mset (sortBy c xs) = mset xs"
  by (induction xs) (simp_all add: sortBy_def mset_insertBy)

lemma length_sortBy: "length (sortBy c xs) = length xs"
  using mset_sortBy [of c xs] by (metis size_mset)

lemma set_sortBy: "set (sortBy c xs) = set xs"
  using mset_sortBy [of c xs] by (metis set_mset_mset)

lemma insertBy_key:
  assumes "\<And>a b. c a b \<le> 0 \<longleftrightarrow> f a \<le> f b"
  shows "insertBy c x xs = insort_key f x xs"
  by (induction xs) (simp_all add: assms)

lemma sortBy_key:
  assumes "\<And>a b. c a b \<le> 0 \<longleftrightarrow> f a \<le> f b"
  shows "sortBy c xs = sort_key f xs"
  by (induction xs) (simp_all add: sortBy_def insertBy_key [OF assms])

subsection \<open>The loops of \<open>totalTravelTimeForRooms\<close>\<close>

lemma keep_min_simps [simp]:
  "keep_min t None = Some t" "keep_min t (Some b) = Some (min t b)"
  by (simp_all add: keep_min_def below_def min_def)

lemma pairs_inner_step:
  "j < length rs \<Longrightarrow>
     pairs_inner rs i j best
       = pairs_inner rs i (Suc j) (keep_min (travelTimeBetween (rs ! i) (rs ! j)) best)"
  by (subst pairs_inner.simps) (simp add: keep_min_def Let_def)

lemma pairs_inner_fold:
  "pairs_inner rs i j best
     = fold keep_min (map (\<lambda>j. travelTimeBetween (rs ! i) (rs ! j)) [j..<length rs]) best"
proof (induction "length rs - j" arbitrary: j best)
  case 0
  then show ?case by (simp add: pairs_inner.simps [of rs i j])
next
  case (Suc k)
  then have lt: "j < length rs" and k: "k = length rs - Suc j" by simp_all
  show ?case
    using Suc.hyps(1) [OF k] lt
    by (simp add: pairs_inner_step upt_conv_Cons)
qed

lemma pairs_outer_step:
  "i < length rs \<Longrightarrow>
     pairs_outer rs i best = pairs_outer rs (Suc i) (pairs_inner rs i (Suc i) best)"
  by (subst pairs_outer.simps) simp

lemma pairs_outer_stop: "\<not> i < length rs \<Longrightarrow> pairs_outer rs i best = best"
  by (subst pairs_outer.simps) simp

lemma pair_times_step:
  assumes "i < length rs"
  shows "pair_times rs i
           = map (\<lambda>j. travelTimeBetween (rs ! i) (rs ! j)) [Suc i..<length rs]
             @ pair_times rs (Suc i)"
proof -
  have "[i..<length rs] = i # [Suc i..<length rs]"
    using assms by (rule upt_conv_Cons)
  then show ?thesis by (simp add: pair_times_def)
qed

lemma pair_times_stop: "\<not> i < length rs \<Longrightarrow> pair_times rs i = []"
  by (simp add: pair_times_def)

lemma pairs_outer_fold: "pairs_outer rs i best = fold keep_min (pair_times rs i) best"
proof (induction "length rs - i" arbitrary: i best)
  case 0
  then have "\<not> i < length rs" by simp
  then show ?case by (simp add: pairs_outer_stop pair_times_stop)
next
  case (Suc k)
  then have lt: "i < length rs" and k: "k = length rs - Suc i" by simp_all
  show ?case
    by (simp add: pairs_outer_step [OF lt] pair_times_step [OF lt] Suc.hyps(1) [OF k]
        pairs_inner_fold)
qed

lemma fold_keep_min:
  "fold keep_min ts best =
     (if ts = [] then best
      else Some (case best of None \<Rightarrow> Min (set ts) | Some b \<Rightarrow> min b (Min (set ts))))"
proof (induction ts arbitrary: best)
  case Nil
  then show ?case by simp
next
  case (Cons t ts)
  show ?case
  proof (cases "ts = []")
    case True
    then show ?thesis by (cases best) (simp_all add: min.commute)
  next
    case False
    then have "Min (set (t # ts)) = min t (Min (set ts))" by simp
    with False show ?thesis
      by (cases best) (simp_all add: Cons.IH min.assoc min.left_commute min.commute)
  qed
qed

lemma set_pair_times:
  "set (pair_times rs 0) = {travelTimeBetween (rs ! i) (rs ! j) | i j. i < j \<and> j < length rs}"
proof -
  have eq: "set (pair_times rs 0)
      = (\<Union>i\<in>{0..<length rs}. (\<lambda>j. travelTimeBetween (rs ! i) (rs ! j)) ` {Suc i..<length rs})"
    by (simp add: pair_times_def)
  show ?thesis
  proof (intro set_eqI iffI)
    fix t assume "t \<in> set (pair_times rs 0)"
    then obtain i j where "j \<in> {Suc i..<length rs}" "t = travelTimeBetween (rs ! i) (rs ! j)"
      unfolding eq by blast
    then have "i < j \<and> j < length rs" by simp
    with \<open>t = _\<close>
    show "t \<in> {travelTimeBetween (rs ! i) (rs ! j) | i j. i < j \<and> j < length rs}"
      by blast
  next
    fix t assume "t \<in> {travelTimeBetween (rs ! i) (rs ! j) | i j. i < j \<and> j < length rs}"
    then obtain i j where ij: "i < j" "j < length rs" "t = travelTimeBetween (rs ! i) (rs ! j)"
      by blast
    then have "i \<in> {0..<length rs}" "j \<in> {Suc i..<length rs}" by simp_all
    with ij(3) show "t \<in> set (pair_times rs 0)"
      unfolding eq by blast
  qed
qed

lemma pair_times_nonempty: "2 \<le> length rs \<Longrightarrow> pair_times rs 0 \<noteq> []"
proof -
  assume "2 \<le> length rs"
  then have "travelTimeBetween (rs ! 0) (rs ! 1) \<in> set (pair_times rs 0)"
    unfolding set_pair_times by force
  then show ?thesis by auto
qed

section \<open>The single-floor loops as folds\<close>

lemma subseq_mset: "subseq xs ys \<Longrightarrow> mset xs \<subseteq># mset ys"
  by (induction rule: list_emb.induct)
     (simp_all add: subset_mset.add_increasing2 subset_mset.order_trans)

lemma mset_subseteq_distinct:
  assumes "mset xs \<subseteq># mset ys" "distinct ys"
  shows "distinct xs"
proof -
  have "count (mset xs) a = (if a \<in> set xs then 1 else 0)" for a
  proof -
    have "count (mset ys) a \<le> 1"
      using assms(2) by (simp add: distinct_count_atmost_1)
    then have le: "count (mset xs) a \<le> 1"
      using mset_subset_eq_count [OF assms(1), of a] by linarith
    show ?thesis
    proof (cases "a \<in> set xs")
      case True
      then have "count (mset xs) a \<noteq> 0" by (simp add: count_mset_0_iff)
      with le have "count (mset xs) a = 1" by linarith
      with True show ?thesis by simp
    next
      case False
      then show ?thesis by (simp add: count_mset_0_iff)
    qed
  qed
  then show ?thesis by (simp add: distinct_count_atmost_1)
qed

lemma keep_better_None [simp]: "keep_better c None = Some (mkResult c)"
  by (simp add: keep_better_def)

lemma window_loop_step:
  assumes "int start + cnt \<le> int (length xs)" "0 \<le> cnt"
  shows "window_loop xs cnt start best
           = window_loop xs cnt (Suc start) (keep_better (take (nat cnt) (drop start xs)) best)"
  using assms
  by (subst window_loop.simps)
     (simp add: slice_window keep_better_def mkResult_def Let_def split: option.split)

lemma window_loop_stop:
  "\<not> int start + cnt \<le> int (length xs) \<Longrightarrow> window_loop xs cnt start best = best"
  by (subst window_loop.simps) simp

lemma windows_step:
  assumes "int start + cnt \<le> int (length xs)"
  shows "windows xs cnt start = take (nat cnt) (drop start xs) # windows xs cnt (Suc start)"
proof -
  have "start < nat (int (length xs) - cnt + 1)" using assms by linarith
  then have "[start..<nat (int (length xs) - cnt + 1)]
      = start # [Suc start..<nat (int (length xs) - cnt + 1)]"
    by (rule upt_conv_Cons)
  then show ?thesis by (simp add: windows_def)
qed

lemma windows_stop: "\<not> int start + cnt \<le> int (length xs) \<Longrightarrow> windows xs cnt start = []"
  by (simp add: windows_def)

lemma window_loop_fold:
  assumes "0 \<le> cnt"
  shows "window_loop xs cnt start best = fold keep_better (windows xs cnt start) best"
proof (induction "nat (int (length xs) - cnt + 1 - int start)" arbitrary: start best)
  case 0
  then have "\<not> int start + cnt \<le> int (length xs)" by linarith
  then show ?case by (simp add: window_loop_stop windows_stop)
next
  case (Suc k)
  then have le: "int start + cnt \<le> int (length xs)"
    and k: "k = nat (int (length xs) - cnt + 1 - int (Suc start))" by linarith+
  show ?case
    by (simp add: window_loop_step [OF le assms] windows_step [OF le] Suc.hyps(1) [OF k])
qed

lemma floors_loop_fold:
  assumes "0 \<le> cnt"
  shows "floors_loop m cnt best = fold keep_better (floor_cands m cnt) best"
proof (induction m arbitrary: best)
  case Nil
  then show ?case by (simp add: floor_cands_def)
next
  case (Cons p m)
  obtain f frs where p: "p = (f, frs)" by (cases p)
  let ?s = "sortBy (\<lambda>a b. indexOnFloor a - indexOnFloor b) frs"
  have short: "windows ?s cnt 0 = []" if "int (length ?s) < cnt"
    using that by (simp add: windows_stop)
  have split: "floor_cands ((f, frs) # m) cnt = windows ?s cnt 0 @ floor_cands m cnt"
    by (simp add: floor_cands_def)
  show ?case
    unfolding p split
    by (simp add: Cons.IH Let_def window_loop_fold [OF assms] short)
qed

section \<open>The floor map\<close>

lemma set_firsts [simp]: "set (firsts xs) = set xs"
  by (induction xs) auto

lemma distinct_firsts [simp]: "distinct (firsts xs)"
  by (induction xs) auto

lemma firsts_snoc: "firsts (xs @ [y]) = (if y \<in> set xs then firsts xs else firsts xs @ [y])"
  by (induction xs) auto

lemma map_of_map_set: "map_of (map_set m k v) = (map_of m)(k \<mapsto> v)"
  by (induction m) (auto simp: fun_eq_iff)

lemma keys_map_set:
  "map fst (map_set m k v) = (if k \<in> set (map fst m) then map fst m else map fst m @ [k])"
  by (induction m) auto

lemma map_of_group_step:
  "map_of (group_step r m) = (map_of m)(floor_room r \<mapsto> map_get m (floor_room r) @ [r])"
  by (auto simp: group_step_def Let_def map_of_map_set map_has_def map_get_def fun_eq_iff)

lemma keys_group_step:
  "map fst (group_step r m)
     = (if floor_room r \<in> set (map fst m) then map fst m else map fst m @ [floor_room r])"
proof (cases "floor_room r \<in> set (map fst m)")
  case True
  then have "map_has m (floor_room r)"
    by (simp add: map_has_def map_of_eq_None_iff)
  with True show ?thesis by (simp add: group_step_def keys_map_set)
next
  case False
  then have "\<not> map_has m (floor_room r)"
    by (simp add: map_has_def map_of_eq_None_iff)
  moreover have "map fst (map_set m (floor_room r) []) = map fst m @ [floor_room r]"
    using False by (simp add: keys_map_set)
  ultimately show ?thesis
    using False by (simp add: group_step_def Let_def keys_map_set)
qed

lemma roomsByFloor_snoc: "roomsByFloor (xs @ [r]) = group_step r (roomsByFloor xs)"
  by (simp add: roomsByFloor_def group_step_def)

lemma roomsByFloor_keys: "map fst (roomsByFloor xs) = firsts (map floor_room xs)"
proof (induction xs rule: rev_induct)
  case Nil
  then show ?case by (simp add: roomsByFloor_def)
next
  case (snoc r xs)
  then show ?case by (simp add: roomsByFloor_snoc keys_group_step firsts_snoc)
qed

lemma roomsByFloor_map_of:
  "map_of (roomsByFloor xs) f
     = (if f \<in> floor_room ` set xs then Some (onFloor f xs) else None)"
proof (induction xs rule: rev_induct)
  case Nil
  then show ?case by (simp add: roomsByFloor_def)
next
  case (snoc r xs)
  have none: "onFloor g xs = []" if "g \<notin> floor_room ` set xs" for g
    using that by (auto simp: onFloor_def filter_empty_conv)
  show ?case
  proof (cases "f = floor_room r")
    case True
    then show ?thesis
      using snoc.IH none [of f]
      by (simp add: roomsByFloor_snoc map_of_group_step map_get_def onFloor_def
          del: image_eqI)
  next
    case False
    then show ?thesis
      using snoc.IH
      by (simp add: roomsByFloor_snoc map_of_group_step onFloor_def)
  qed
qed

lemma alist_eq_keys:
  assumes "distinct (map fst m)"
  shows "m = map (\<lambda>k. (k, the (map_of m k))) (map fst m)"
  using assms
proof (induction m)
  case Nil
  then show ?case by simp
next
  case (Cons p m)
  obtain a b where p: "p = (a, b)" by (cases p)
  from Cons.prems have a: "a \<notin> set (map fst m)" and d: "distinct (map fst m)"
    by (simp_all add: p)
  have "map (\<lambda>k. (k, the (map_of (p # m) k))) (map fst m)
      = map (\<lambda>k. (k, the (map_of m k))) (map fst m)"
    using a by (intro map_cong refl) (auto simp: p)
  also have "\<dots> = m" using Cons.IH [OF d] by simp
  finally show ?case by (simp add: p)
qed

lemma roomsByFloor_eq:
  "roomsByFloor xs = map (\<lambda>f. (f, onFloor f xs)) (firsts (map floor_room xs))"
proof -
  have d: "distinct (map fst (roomsByFloor xs))" by (simp add: roomsByFloor_keys)
  have "roomsByFloor xs
      = map (\<lambda>k. (k, the (map_of (roomsByFloor xs) k))) (firsts (map floor_room xs))"
    using alist_eq_keys [OF d] by (simp add: roomsByFloor_keys)
  also have "\<dots> = map (\<lambda>f. (f, onFloor f xs)) (firsts (map floor_room xs))"
    by (rule map_cong) (auto simp: roomsByFloor_map_of)
  finally show ?thesis .
qed

section \<open>The running best result and the combinations of a list\<close>

lemma mkResult_simps [simp]:
  "rooms (mkResult c) = c" "totalTravelTime (mkResult c) = totalTravelTimeForRooms c"
  by (simp_all add: mkResult_def)

lemma keep_better_Some:
  "keep_better c (Some (mkResult d))
     = (if totalTravelTimeForRooms c < totalTravelTimeForRooms d then Some (mkResult c)
        else Some (mkResult d))"
  by (simp add: keep_better_def)

lemma fold_keep_better_first_min:
  assumes "cs \<noteq> []"
  shows "\<exists>i<length cs. fold keep_better cs None = Some (mkResult (cs ! i))
           \<and> (\<forall>j<length cs. totalTravelTimeForRooms (cs ! i) \<le> totalTravelTimeForRooms (cs ! j))
           \<and> (\<forall>j<i. totalTravelTimeForRooms (cs ! i) < totalTravelTimeForRooms (cs ! j))"
  using assms
proof (induction cs rule: rev_induct)
  case Nil
  then show ?case by simp
next
  case (snoc c cs)
  show ?case
  proof (cases "cs = []")
    case True
    then show ?thesis by simp
  next
    case False
    from snoc.IH [OF False] obtain i where i: "i < length cs"
      and res: "fold keep_better cs None = Some (mkResult (cs ! i))"
      and least: "\<forall>j<length cs. totalTravelTimeForRooms (cs ! i) \<le> totalTravelTimeForRooms (cs ! j)"
      and first: "\<forall>j<i. totalTravelTimeForRooms (cs ! i) < totalTravelTimeForRooms (cs ! j)"
      by blast
    show ?thesis
    proof (cases "totalTravelTimeForRooms c < totalTravelTimeForRooms (cs ! i)")
      case True
      have "fold keep_better (cs @ [c]) None = Some (mkResult ((cs @ [c]) ! length cs))"
        using True by (simp add: res keep_better_Some)
      moreover have "\<forall>j<length (cs @ [c]).
          totalTravelTimeForRooms ((cs @ [c]) ! length cs) \<le> totalTravelTimeForRooms ((cs @ [c]) ! j)"
        using True least by (auto simp: nth_append less_Suc_eq)
      moreover have "\<forall>j<length cs.
          totalTravelTimeForRooms ((cs @ [c]) ! length cs) < totalTravelTimeForRooms ((cs @ [c]) ! j)"
        using True least by (auto simp: nth_append)
      ultimately show ?thesis
        by (intro exI [of _ "length cs"]) simp
    next
      case False
      have "fold keep_better (cs @ [c]) None = Some (mkResult ((cs @ [c]) ! i))"
        using False i by (simp add: res keep_better_Some nth_append)
      moreover have "\<forall>j<length (cs @ [c]).
          totalTravelTimeForRooms ((cs @ [c]) ! i) \<le> totalTravelTimeForRooms ((cs @ [c]) ! j)"
        using False least i by (auto simp: nth_append less_Suc_eq)
      moreover have "\<forall>j<i.
          totalTravelTimeForRooms ((cs @ [c]) ! i) < totalTravelTimeForRooms ((cs @ [c]) ! j)"
        using first i by (auto simp: nth_append)
      ultimately show ?thesis
        using i by (intro exI [of _ i]) simp
    qed
  qed
qed

lemma fold_keep_better_Nil [simp]: "fold keep_better [] best = best"
  by simp

lemma combinations_subseq:
  "c \<in> set (combinations k xs) \<Longrightarrow> subseq c xs \<and> length c = k"
proof (induction k xs arbitrary: c rule: combinations.induct)
  case (1 xs)
  then show ?case by simp
next
  case (2 k)
  then show ?case by simp
next
  case (3 k x xs)
  then show ?case by (auto simp: subseq_Cons2 intro: list_emb_Cons)
qed

lemma subseq_combinations:
  "subseq c xs \<Longrightarrow> c \<in> set (combinations (length c) xs)"
proof (induction xs arbitrary: c)
  case Nil
  then have "c = []" by (rule list_emb_Nil2)
  then show ?case by simp
next
  case (Cons x xs)
  show ?case
  proof (cases c)
    case Nil
    then show ?thesis by simp
  next
    case c: (Cons y ys)
    show ?thesis
    proof (cases "y = x")
      case True
      with Cons.prems c have "subseq ys xs" by simp
      from Cons.IH [OF this] show ?thesis using c True by simp
    next
      case False
      with Cons.prems c have "subseq c xs" by (simp add: subseq_Cons2_neq)
      from Cons.IH [OF this] show ?thesis using c by simp
    qed
  qed
qed

lemma combinations_nonempty: "k \<le> length xs \<Longrightarrow> combinations k xs \<noteq> []"
  by (induction k xs rule: combinations.induct) auto

lemma combinations_too_long: "length xs < k \<Longrightarrow> combinations k xs = []"
  by (induction k xs rule: combinations.induct) auto

section \<open>The backtracking search as a fold; the allocator in closed form\<close>

lemma backtrack_for_step:
  "i < length pool \<Longrightarrow>
     backtrack_for pool cnt i chosen best
       = backtrack_for pool cnt (Suc i) chosen
           (backtrack pool cnt (Suc i) (chosen @ [pool ! i]) best)"
  by (subst backtrack_for.simps) simp

lemma backtrack_for_stop: "\<not> i < length pool \<Longrightarrow> backtrack_for pool cnt i chosen best = best"
  by (subst backtrack_for.simps) simp

lemma backtrack_done:
  "int (length chosen) = cnt \<Longrightarrow> backtrack pool cnt s chosen best = keep_better chosen best"
  by (subst backtrack.simps)
     (simp add: keep_better_def mkResult_def Let_def split: option.split)

lemma backtrack_more:
  "int (length chosen) \<noteq> cnt \<Longrightarrow>
     backtrack pool cnt s chosen best = backtrack_for pool cnt s chosen best"
  by (subst backtrack.simps) simp

lemma backtrack_for_fold:
  assumes "int (length chosen) < cnt"
  shows "backtrack_for pool cnt i chosen best
           = fold keep_better
               (map ((@) chosen) (combinations (nat cnt - length chosen) (drop i pool))) best"
  using assms
proof (induction "length pool - i" arbitrary: i chosen best)
  case 0
  then have stop: "\<not> i < length pool" by simp
  from 0 have "0 < nat cnt - length chosen" by linarith
  then obtain k where k: "nat cnt - length chosen = Suc k"
    using gr0_implies_Suc by blast
  show ?case using stop by (simp add: backtrack_for_stop k)
next
  case (Suc n)
  then have lt: "i < length pool" and n: "n = length pool - Suc i" by simp_all
  let ?x = "pool ! i" and ?rest = "drop (Suc i) pool"
  from Suc.prems have "0 < nat cnt - length chosen" by linarith
  then obtain k where k: "nat cnt - length chosen = Suc k"
    using gr0_implies_Suc by blast
  have k': "nat cnt - Suc (length chosen) = k" using k by simp
  have inner: "backtrack pool cnt (Suc i) (chosen @ [?x]) best
      = fold keep_better (map ((@) (chosen @ [?x])) (combinations k ?rest)) best" for best
  proof (cases "int (length (chosen @ [?x])) = cnt")
    case True
    then have "k = 0" using k by (simp add: nat_add_distrib flip: True)
    then show ?thesis by (simp add: backtrack_done [OF True])
  next
    case False
    then have less: "int (length (chosen @ [?x])) < cnt" using Suc.prems by simp
    show ?thesis
      using Suc.hyps(1) [OF n less] by (simp add: backtrack_more [OF False] k')
  qed
  have outer: "backtrack_for pool cnt (Suc i) chosen best
      = fold keep_better (map ((@) chosen) (combinations (Suc k) ?rest)) best" for best
    using Suc.hyps(1) [OF n Suc.prems] by (simp add: k)
  have drop: "drop i pool = ?x # ?rest"
    using lt by (simp add: Cons_nth_drop_Suc)
  have app: "(@) (chosen @ [?x]) = (\<lambda>c. chosen @ ?x # c)"
    by (simp add: fun_eq_iff)
  show ?case
    by (simp add: backtrack_for_step [OF lt] inner outer k drop comp_def app)
qed

lemma backtrack_fold:
  assumes "1 \<le> cnt"
  shows "backtrack pool cnt 0 [] None = fold keep_better (combinations (nat cnt) pool) None"
proof -
  have "int (length ([] :: Room list)) \<noteq> cnt" "int (length ([] :: Room list)) < cnt"
    using assms by simp_all
  moreover have "map ((@) []) cs = cs" for cs :: "Room list list"
    by (induction cs) simp_all
  ultimately show ?thesis
    by (simp add: backtrack_more backtrack_for_fold)
qed

lemma fold_keep_better_None_iff: "fold keep_better cs None = None \<longleftrightarrow> cs = []"
  using fold_keep_better_first_min [of cs] by (cases "cs = []") auto

lemma floor_cands_roomsByFloor:
  "floor_cands (roomsByFloor xs) cnt = phase1_cands xs cnt"
  by (simp add: floor_cands_def roomsByFloor_eq phase1_cands_def comp_def)

lemma take_pool:
  assumes "length ys = length xs"
  shows "take (nat (min (int (length xs)) 20)) ys = take 20 ys"
proof (cases "length xs \<le> 20")
  case True
  then show ?thesis using assms by (simp add: min_def)
next
  case False
  then show ?thesis by (simp add: min_def)
qed

lemma allocateRooms_guarded:
  assumes "1 \<le> cnt" "cnt \<le> 5" "cnt \<le> int (length (filter isFree rs))"
  shows "allocateRooms rs cnt
           = (case fold keep_better (phase1_cands (filter isFree rs) cnt) None of
                Some b \<Rightarrow> Some b
              | None \<Rightarrow> fold keep_better
                          (combinations (nat cnt) (candidatePool (filter isFree rs))) None)"
proof -
  have c0: "0 \<le> cnt" using assms(1) by simp
  have pool: "slice (sortBy byFloorThenIndex (filter isFree rs)) 0
                (min (int (length (filter isFree rs))) 20)
              = candidatePool (filter isFree rs)"
    by (simp add: slice_prefix candidatePool_def take_pool length_sortBy)
  have cmp: "(\<lambda>a b. if floor_room a \<noteq> floor_room b then floor_room a - floor_room b
                     else indexOnFloor a - indexOnFloor b) = byFloorThenIndex"
    by (simp add: fun_eq_iff byFloorThenIndex_def)
  show ?thesis
    unfolding allocateRooms_def cmp
    using assms
    by (simp add: Let_def floors_loop_fold [OF c0] floor_cands_roomsByFloor pool
        backtrack_fold [OF assms(1)] split: option.split)
qed

section \<open>The candidates of both phases\<close>

lemma windows_member:
  assumes "c \<in> set (windows xs cnt 0)" "1 \<le> cnt"
  shows "length c = nat cnt \<and> sublist c xs"
proof -
  from assms(1) obtain s where s: "s < nat (int (length xs) - cnt + 1)"
    and c: "c = take (nat cnt) (drop s xs)"
    by (auto simp: windows_def)
  from s assms(2) have "nat cnt \<le> length xs - s" by linarith
  then have "length c = nat cnt" by (simp add: c)
  moreover have "sublist c xs"
    unfolding c by (meson sublist_drop sublist_take sublist_order.order_trans)
  ultimately show ?thesis by simp
qed

lemma windows_empty_iff:
  assumes "1 \<le> cnt"
  shows "windows xs cnt 0 = [] \<longleftrightarrow> int (length xs) < cnt"
  using assms by (simp add: windows_def) linarith

lemma mset_onFloor: "mset (onFloor f xs) \<subseteq># mset xs"
  by (simp add: onFloor_def)

lemma phase1_cands_member:
  assumes "c \<in> set (phase1_cands xs cnt)" "1 \<le> cnt"
  shows "length c = nat cnt \<and> mset c \<subseteq># mset xs \<and> (\<exists>f. \<forall>r\<in>set c. floor_room r = f)"
proof -
  let ?s = "\<lambda>f. sortBy (\<lambda>a b. indexOnFloor a - indexOnFloor b) (onFloor f xs)"
  from assms(1) obtain f where "c \<in> set (windows (?s f) cnt 0)"
    by (auto simp: phase1_cands_def)
  from windows_member [OF this assms(2)]
  have len: "length c = nat cnt" and sub: "sublist c (?s f)" by simp_all
  from sub have "subseq c (?s f)" by (rule sublist_imp_subseq)
  then have m: "mset c \<subseteq># mset (?s f)" by (rule subseq_mset)
  then have "mset c \<subseteq># mset (onFloor f xs)" by (simp add: mset_sortBy)
  then have incl: "mset c \<subseteq># mset xs"
    using mset_onFloor [of f xs] by (rule subset_mset.order_trans)
  have "set c \<subseteq> set (onFloor f xs)"
    using m by (metis mset_sortBy set_mset_mono set_mset_mset)
  then have "\<forall>r\<in>set c. floor_room r = f" by (auto simp: onFloor_def)
  with len incl show ?thesis by blast
qed

lemma phase1_cands_empty_iff:
  assumes "1 \<le> cnt"
  shows "phase1_cands xs cnt = [] \<longleftrightarrow> (\<forall>f. int (length (onFloor f xs)) < cnt)"
proof
  assume empty: "phase1_cands xs cnt = []"
  show "\<forall>f. int (length (onFloor f xs)) < cnt"
  proof
    fix f
    show "int (length (onFloor f xs)) < cnt"
    proof (cases "f \<in> floor_room ` set xs")
      case True
      with empty have "windows (sortBy (\<lambda>a b. indexOnFloor a - indexOnFloor b) (onFloor f xs)) cnt 0 = []"
        by (auto simp: phase1_cands_def)
      then show ?thesis by (simp add: windows_empty_iff [OF assms] length_sortBy)
    next
      case False
      then have "onFloor f xs = []" by (auto simp: onFloor_def filter_empty_conv)
      then show ?thesis using assms by simp
    qed
  qed
next
  assume "\<forall>f. int (length (onFloor f xs)) < cnt"
  then show "phase1_cands xs cnt = []"
    by (simp add: phase1_cands_def windows_empty_iff [OF assms] length_sortBy)
qed

lemma mset_candidatePool: "mset (candidatePool xs) \<subseteq># mset xs"
proof -
  have "subseq (take 20 (sortBy byFloorThenIndex xs)) (sortBy byFloorThenIndex xs)"
    by (rule sublist_imp_subseq) (rule sublist_take)
  from subseq_mset [OF this] show ?thesis by (simp add: candidatePool_def mset_sortBy)
qed

lemma length_candidatePool: "length (candidatePool xs) = min (length xs) 20"
  by (simp add: candidatePool_def length_sortBy)

lemma pool_combinations_member:
  assumes "c \<in> set (combinations k (candidatePool xs))"
  shows "length c = k \<and> mset c \<subseteq># mset xs \<and> subseq c (candidatePool xs)"
proof -
  from combinations_subseq [OF assms]
  have sub: "subseq c (candidatePool xs)" and len: "length c = k" by simp_all
  from subseq_mset [OF sub] mset_candidatePool [of xs]
  have "mset c \<subseteq># mset xs" by (rule subset_mset.order_trans)
  with sub len show ?thesis by simp
qed

lemma pool_combinations_nonempty:
  assumes "cnt \<le> 5" "cnt \<le> int (length xs)"
  shows "combinations (nat cnt) (candidatePool xs) \<noteq> []"
proof -
  have "nat cnt \<le> length xs" "nat cnt \<le> 20"
    using assms by linarith+
  then have "nat cnt \<le> length (candidatePool xs)"
    by (simp add: length_candidatePool)
  then show ?thesis by (rule combinations_nonempty)
qed

lemma fold_keep_better_member:
  assumes "cs \<noteq> []"
  shows "\<exists>c\<in>set cs. fold keep_better cs None = Some (mkResult c)"
  using fold_keep_better_first_min [OF assms] by (metis nth_mem)

lemma allocateRooms_result:
  assumes "1 \<le> cnt" "cnt \<le> 5" "cnt \<le> int (length (filter isFree rs))"
  shows "\<exists>c. allocateRooms rs cnt = Some (mkResult c) \<and> length c = nat cnt
           \<and> mset c \<subseteq># mset (filter isFree rs)"
proof (cases "phase1_cands (filter isFree rs) cnt = []")
  case True
  let ?cs = "combinations (nat cnt) (candidatePool (filter isFree rs))"
  have "?cs \<noteq> []" using assms(2,3) by (rule pool_combinations_nonempty)
  from fold_keep_better_member [OF this] obtain c where c: "c \<in> set ?cs"
    and res: "fold keep_better ?cs None = Some (mkResult c)" by blast
  have "allocateRooms rs cnt = Some (mkResult c)"
    by (simp add: allocateRooms_guarded [OF assms] True res)
  with pool_combinations_member [OF c] show ?thesis by blast
next
  case False
  from fold_keep_better_member [OF False] obtain c
    where c: "c \<in> set (phase1_cands (filter isFree rs) cnt)"
      and res: "fold keep_better (phase1_cands (filter isFree rs) cnt) None = Some (mkResult c)"
    by blast
  have "allocateRooms rs cnt = Some (mkResult c)"
    by (simp add: allocateRooms_guarded [OF assms] res)
  with phase1_cands_member [OF c assms(1)] show ?thesis by blast
qed

lemma allocateRooms_Some_guards:
  assumes "allocateRooms rs cnt = Some res"
  shows "1 \<le> cnt \<and> cnt \<le> 5 \<and> cnt \<le> int (length (filter isFree rs))"
  using assms by (auto simp: allocateRooms_def Let_def split: if_splits)

section \<open>A request for one room\<close>

lemma sortBy_index:
  "sortBy (\<lambda>a b. indexOnFloor a - indexOnFloor b) xs = sort_key indexOnFloor xs"
  by (rule sortBy_key) simp

lemma sortBy_floor_index:
  "sortBy byFloorThenIndex xs = sort_key (\<lambda>r. (floor_room r, indexOnFloor r)) xs"
  by (rule sortBy_key) (auto simp: byFloorThenIndex_def)

lemma totalTravelTimeForRooms_single: "length c = 1 \<Longrightarrow> totalTravelTimeForRooms c = 0"
  by (simp add: totalTravelTimeForRooms_def)

lemma allocateRooms_one_room:
  assumes "filter isFree rs \<noteq> []"
  shows "allocateRooms rs 1
           = Some \<lparr>rooms = [hd (sort_key indexOnFloor
                                (onFloor (floor_room (hd (filter isFree rs))) (filter isFree rs)))],
                    totalTravelTime = 0\<rparr>"
proof -
  let ?free = "filter isFree rs"
  let ?cs = "phase1_cands ?free 1"
  obtain x xs where free: "?free = x # xs" using assms by (cases ?free) auto
  let ?S = "sort_key indexOnFloor (onFloor (floor_room x) ?free)"
  have "onFloor (floor_room x) ?free \<noteq> []" unfolding free by (simp add: onFloor_def)
  then have "?S \<noteq> []" by (metis length_sort length_0_conv)
  then obtain s S' where S: "?S = s # S'" by (cases ?S) auto
  have w: "windows ?S 1 0 = [s] # windows ?S 1 (Suc 0)"
    using windows_step [of 0 1 ?S] by (simp add: S)
  have "?cs = windows ?S 1 0 @ concat (map (\<lambda>f. windows (sort_key indexOnFloor (onFloor f ?free)) 1 0)
        (filter (\<lambda>y. y \<noteq> floor_room x) (firsts (map floor_room xs))))"
    unfolding phase1_cands_def sortBy_index by (simp add: free)
  then obtain cs' where cs: "?cs = [s] # cs'" unfolding w by simp
  have zero: "totalTravelTimeForRooms c = 0" if "c \<in> set ?cs" for c
    using phase1_cands_member [OF that] by (simp add: totalTravelTimeForRooms_single)
  have ne: "?cs \<noteq> []" by (simp add: cs)
  from fold_keep_better_first_min [OF ne] obtain i where i: "i < length ?cs"
    and res: "fold keep_better ?cs None = Some (mkResult (?cs ! i))"
    and first: "\<forall>j<i. totalTravelTimeForRooms (?cs ! i) < totalTravelTimeForRooms (?cs ! j)"
    by blast
  have "i = 0"
  proof (rule ccontr)
    assume "i \<noteq> 0"
    then have "0 < i" by simp
    with first have "totalTravelTimeForRooms (?cs ! i) < totalTravelTimeForRooms (?cs ! 0)"
      by blast
    moreover have "?cs ! i \<in> set ?cs" "?cs ! 0 \<in> set ?cs" using i ne by simp_all
    ultimately show False using zero by simp
  qed
  with res have "fold keep_better ?cs None = Some (mkResult [s])" by (simp add: cs)
  moreover have "mkResult [s] = \<lparr>rooms = [s], totalTravelTime = 0\<rparr>"
    by (simp add: mkResult_def totalTravelTimeForRooms_def)
  moreover have "1 \<le> int (length ?free)" by (simp add: free)
  ultimately have "allocateRooms rs 1 = Some \<lparr>rooms = [s], totalTravelTime = 0\<rparr>"
    by (simp add: allocateRooms_guarded)
  moreover have "s = hd ?S" by (simp add: S)
  ultimately show ?thesis by (simp add: free)
qed

lemma hd_sort_key_least:
  assumes "xs \<noteq> []"
  shows "hd (sort_key f xs) \<in> set xs \<and> (\<forall>y\<in>set xs. f (hd (sort_key f xs)) \<le> f y)"
proof -
  have ne: "sort_key f xs \<noteq> []" using assms by (metis length_sort length_0_conv)
  then obtain s S where S: "sort_key f xs = s # S" by (cases "sort_key f xs") auto
  have "sorted (map f (sort_key f xs))" by (rule sorted_sort_key)
  then have "\<forall>y\<in>set (s # S). f s \<le> f y" by (auto simp: S)
  moreover have "set (s # S) = set xs" by (metis S set_sort)
  ultimately show ?thesis by (metis S list.sel(1) list.set_intros(1))
qed

section \<open>The travel-time metric: properties\<close>

text \<open>
  C7: the pairwise travel time is twice the floor distance plus the position distance;
  it is symmetric, never negative, and zero from a room to itself.
\<close>

theorem travelTimeBetween_metric:
  "travelTimeBetween a b
     = \<bar>floor_room a - floor_room b\<bar> * 2 + \<bar>indexOnFloor a - indexOnFloor b\<bar> * 1
   \<and> travelTimeBetween a b = travelTimeBetween b a
   \<and> 0 \<le> travelTimeBetween a b
   \<and> travelTimeBetween a a = 0"
  unfolding travelTimeBetween_def Let_def by (simp add: abs_minus_commute)

text \<open>
  C4: the travel time of a list of fewer than two rooms is 0; of a longer list it is the
  minimum of the pairwise travel time over all pairs of positions \<open>i < j\<close> of the list.
\<close>

theorem totalTravelTimeForRooms_min_over_pairs:
  "(length rs < 2 \<longrightarrow> totalTravelTimeForRooms rs = 0)
   \<and> (2 \<le> length rs \<longrightarrow>
        totalTravelTimeForRooms rs
          = Min {travelTimeBetween (rs ! i) (rs ! j) | i j. i < j \<and> j < length rs})"
proof (intro conjI impI)
  assume "length rs < 2"
  then show "totalTravelTimeForRooms rs = 0" by (simp add: totalTravelTimeForRooms_def)
next
  assume len: "2 \<le> length rs"
  then show "totalTravelTimeForRooms rs
          = Min {travelTimeBetween (rs ! i) (rs ! j) | i j. i < j \<and> j < length rs}"
    using pair_times_nonempty [OF len]
    by (simp add: totalTravelTimeForRooms_def pairs_outer_fold fold_keep_min
        set_pair_times [symmetric])
qed

theorem totalTravelTimeForRooms_min_over_pairs_witness:
  "(length ([] :: Room list) < 2 \<and> totalTravelTimeForRooms [] = 0)
   \<and> (2 \<le> length twoOnFloorOne
        \<and> totalTravelTimeForRooms twoOnFloorOne
          = Min {travelTimeBetween (twoOnFloorOne ! i) (twoOnFloorOne ! j) | i j.
                   i < j \<and> j < length twoOnFloorOne})
   \<and> totalTravelTimeForRooms twoOnFloorOne = 1"
proof -
  have h: "2 \<le> length twoOnFloorOne" by (simp add: twoOnFloorOne_def)
  have ev: "totalTravelTimeForRooms twoOnFloorOne = 1" by code_simp
  from totalTravelTimeForRooms_min_over_pairs [of "[]"]
    totalTravelTimeForRooms_min_over_pairs [of twoOnFloorOne] h ev
  show ?thesis by simp
qed

section \<open>The allocator: guards and results\<close>

lemma unique_ids_free_distinct:
  "distinct (map id_room rs) \<Longrightarrow> distinct (filter (\<lambda>r. status r = Free) rs)"
  by (simp add: distinct_map)

text \<open>
  C1: for a count from 1 to 5 that does not exceed the number of free rooms,
  \<open>allocateRooms\<close> returns a result with exactly \<open>cnt\<close> pairwise-distinct rooms, each a free
  room of the input list. The room list is one of the data model, in which no room occurs
  twice: the hypothesis asks only that the free rooms are pairwise distinct, which unique
  room ids give (\<open>unique_ids_free_distinct\<close>); with unique ids the ids of the result are
  pairwise distinct too.
\<close>

theorem allocateRooms_returns_free_rooms:
  assumes "1 \<le> cnt" "cnt \<le> 5"
    and "cnt \<le> int (length (filter (\<lambda>r. status r = Free) rs))"
    and "distinct (filter (\<lambda>r. status r = Free) rs)"
  shows "\<exists>res. allocateRooms rs cnt = Some res
           \<and> int (length (rooms res)) = cnt
           \<and> distinct (rooms res)
           \<and> (\<forall>r\<in>set (rooms res). r \<in> set rs \<and> status r = Free)
           \<and> (distinct (map id_room rs) \<longrightarrow> distinct (map id_room (rooms res)))"
proof -
  from allocateRooms_result [OF assms(1-3)] obtain c
    where res: "allocateRooms rs cnt = Some (mkResult c)"
      and len: "length c = nat cnt"
      and sub: "mset c \<subseteq># mset (filter isFree rs)" by blast
  from sub assms(4) have d: "distinct c" by (rule mset_subseteq_distinct)
  from sub have "set c \<subseteq> set (filter isFree rs)"
    by (metis set_mset_mono set_mset_mset)
  then have free: "\<forall>r\<in>set c. r \<in> set rs \<and> status r = Free" by auto
  from len assms(1) have n: "int (length c) = cnt" by simp
  have ids: "distinct (map id_room c)" if u: "distinct (map id_room rs)"
  proof -
    from u have "distinct (map id_room (filter isFree rs))" by (rule distinct_map_filter)
    moreover from sub have "mset (map id_room c) \<subseteq># mset (map id_room (filter isFree rs))"
      unfolding mset_map [symmetric, of id_room] by (metis image_mset_subseteq_mono mset_map)
    ultimately show ?thesis by (rule mset_subseteq_distinct [rotated])
  qed
  from res n d free ids show ?thesis by simp
qed

theorem allocateRooms_returns_free_rooms_witness:
  "(1::int) \<le> 2 \<and> (2::int) \<le> 5
   \<and> 2 \<le> int (length (filter (\<lambda>r. status r = Free) twoOnFloorOne))
   \<and> distinct (filter (\<lambda>r. status r = Free) twoOnFloorOne)
   \<and> distinct (map id_room twoOnFloorOne)
   \<and> (\<exists>res. allocateRooms twoOnFloorOne 2 = Some res
           \<and> int (length (rooms res)) = 2
           \<and> distinct (rooms res)
           \<and> (\<forall>r\<in>set (rooms res). r \<in> set twoOnFloorOne \<and> status r = Free)
           \<and> distinct (map id_room (rooms res)))"
proof -
  have h3: "2 \<le> int (length (filter (\<lambda>r. status r = Free) twoOnFloorOne))"
    by (simp add: twoOnFloorOne_def)
  have h4: "distinct (filter (\<lambda>r. status r = Free) twoOnFloorOne)"
    by (simp add: twoOnFloorOne_def)
  have h5: "distinct (map id_room twoOnFloorOne)" by (simp add: twoOnFloorOne_def)
  from allocateRooms_returns_free_rooms [of 2 twoOnFloorOne, OF _ _ h3 h4] h3 h4 h5
  show ?thesis by simp
qed

text \<open>
  C2: \<open>allocateRooms\<close> returns no result when the count is at most 0, when it exceeds 5, and
  when fewer rooms are free than requested; in particular for the counts 0 and 6 on every
  list of rooms. The model has no other outcome than a result or none.
\<close>

theorem allocateRooms_rejects:
  "(cnt \<le> 0 \<or> cnt > 5 \<or> int (length (filter (\<lambda>r. status r = Free) rs)) < cnt
      \<longrightarrow> allocateRooms rs cnt = None)
   \<and> allocateRooms rs 0 = None \<and> allocateRooms rs 6 = None"
  by (auto simp: allocateRooms_def Let_def)

theorem allocateRooms_rejects_witness:
  "int (length (filter (\<lambda>r. status r = Free) twoOnFloorOne)) < 4
   \<and> allocateRooms twoOnFloorOne 4 = None
   \<and> allocateRooms twoOnFloorOne 0 = None \<and> allocateRooms twoOnFloorOne 6 = None"
proof -
  have h: "int (length (filter (\<lambda>r. status r = Free) twoOnFloorOne)) < 4"
    by (simp add: twoOnFloorOne_def)
  with allocateRooms_rejects [of 4 twoOnFloorOne] show ?thesis by simp
qed

text \<open>
  C3 (as amended): for a count from 1 to 5, when some floor has at least \<open>cnt\<close> free rooms,
  \<open>allocateRooms\<close> returns the result of the single-floor loop, and all rooms of that result
  lie on one floor.
\<close>

theorem allocateRooms_single_floor_first:
  assumes "1 \<le> cnt" "cnt \<le> 5"
    and "cnt \<le> int (length (filter (\<lambda>r. status r = Free \<and> floor_room r = f) rs))"
  shows "\<exists>res. allocateRooms rs cnt = Some res
           \<and> floors_loop (roomsByFloor (filter (\<lambda>r. status r = Free) rs)) cnt None = Some res
           \<and> (\<exists>g. \<forall>r\<in>set (rooms res). floor_room r = g)"
proof -
  let ?free = "filter isFree rs"
  have on: "onFloor f ?free = filter (\<lambda>r. status r = Free \<and> floor_room r = f) rs"
    by (simp add: onFloor_def conj_commute)
  have "length (onFloor f ?free) \<le> length ?free"
    unfolding onFloor_def by (rule length_filter_le)
  with assms(3) have enough: "cnt \<le> int (length ?free)" unfolding on by linarith
  have "\<not> int (length (onFloor f ?free)) < cnt" using assms(3) unfolding on by simp
  then have ne: "phase1_cands ?free cnt \<noteq> []"
    by (auto simp: phase1_cands_empty_iff [OF assms(1)])
  from fold_keep_better_member [OF ne] obtain c
    where c: "c \<in> set (phase1_cands ?free cnt)"
      and res: "fold keep_better (phase1_cands ?free cnt) None = Some (mkResult c)" by blast
  have "0 \<le> cnt" using assms(1) by simp
  then have loop: "floors_loop (roomsByFloor ?free) cnt None = Some (mkResult c)"
    by (simp add: floors_loop_fold floor_cands_roomsByFloor res)
  have "allocateRooms rs cnt = Some (mkResult c)"
    by (simp add: allocateRooms_guarded [OF assms(1,2) enough] res)
  with loop phase1_cands_member [OF c assms(1)] show ?thesis by simp
qed

theorem allocateRooms_single_floor_first_witness:
  "(1::int) \<le> 2 \<and> (2::int) \<le> 5
   \<and> 2 \<le> int (length (filter (\<lambda>r. status r = Free \<and> floor_room r = 1) twoOnFloorOne))
   \<and> (\<exists>res. allocateRooms twoOnFloorOne 2 = Some res
           \<and> floors_loop (roomsByFloor (filter (\<lambda>r. status r = Free) twoOnFloorOne)) 2 None
               = Some res
           \<and> (\<exists>g. \<forall>r\<in>set (rooms res). floor_room r = g))"
proof -
  have h: "2 \<le> int (length (filter (\<lambda>r. status r = Free \<and> floor_room r = 1) twoOnFloorOne))"
    by (simp add: twoOnFloorOne_def)
  from allocateRooms_single_floor_first [of 2 1 twoOnFloorOne, OF _ _ h] h
  show ?thesis by simp
qed

text \<open>
  The claim as stated, for every count, fails for the count 6: floor 1 of the fresh hotel
  has ten free rooms and no result is returned.
\<close>

theorem allocateRooms_six_on_one_floor:
  "map status (onFloor 1 buildHotelRooms) = replicate 10 Free
   \<and> allocateRooms buildHotelRooms 6 = None"
  by code_simp

text \<open>
  C9: whenever \<open>allocateRooms\<close> returns a result, its \<open>totalTravelTime\<close> is the travel time
  of its room list.
\<close>

theorem allocateRooms_time_consistent:
  "allocateRooms rs cnt = Some res \<Longrightarrow>
     totalTravelTime res = totalTravelTimeForRooms (rooms res)"
proof -
  assume some: "allocateRooms rs cnt = Some res"
  from allocateRooms_Some_guards [OF some]
  have "1 \<le> cnt" "cnt \<le> 5" "cnt \<le> int (length (filter isFree rs))" by simp_all
  from allocateRooms_result [OF this] some obtain c where "res = mkResult c" by auto
  then show ?thesis by simp
qed

theorem allocateRooms_time_consistent_witness:
  "allocateRooms buildHotelRooms 3
     = Some \<lparr>rooms = take 3 buildHotelRooms, totalTravelTime = 1\<rparr>
   \<and> totalTravelTime \<lparr>rooms = take 3 buildHotelRooms, totalTravelTime = 1\<rparr>
       = totalTravelTimeForRooms (rooms \<lparr>rooms = take 3 buildHotelRooms, totalTravelTime = 1\<rparr>)"
proof -
  have h: "allocateRooms buildHotelRooms 3
     = Some \<lparr>rooms = take 3 buildHotelRooms, totalTravelTime = 1\<rparr>"
    by code_simp
  from allocateRooms_time_consistent [OF h] h show ?thesis by simp
qed

section \<open>A single room, the scenario of rooms 510 and 601, the layout\<close>

lemma buildHotelRooms_floors_sorted: "sorted (map floor_room buildHotelRooms)"
  by code_simp

text \<open>
  C10: when at least one room is free, \<open>allocateRooms rs 1\<close> returns exactly one room with
  travel time 0: a free room on the floor of the first free room of the list whose position
  is smallest among the free rooms of that floor. When the floors of the list are in
  ascending order, as they are in the list \<open>buildHotelRooms\<close> builds, that room is least in
  the order by floor, then position.
\<close>

theorem allocateRooms_one_is_leftmost_of_first_floor:
  assumes "\<exists>r\<in>set rs. status r = Free"
  shows "\<exists>r. allocateRooms rs 1 = Some \<lparr>rooms = [r], totalTravelTime = 0\<rparr>
           \<and> r \<in> set rs \<and> status r = Free
           \<and> floor_room r = floor_room (hd (filter (\<lambda>r. status r = Free) rs))
           \<and> (\<forall>q\<in>set rs. status q = Free \<and> floor_room q = floor_room r
                  \<longrightarrow> indexOnFloor r \<le> indexOnFloor q)
           \<and> (sorted (map floor_room rs) \<longrightarrow>
                (\<forall>q\<in>set rs. status q = Free \<longrightarrow>
                   floor_room r < floor_room q
                   \<or> (floor_room r = floor_room q \<and> indexOnFloor r \<le> indexOnFloor q)))"
proof -
  let ?free = "filter isFree rs"
  from assms have ne: "?free \<noteq> []" by (auto simp: filter_empty_conv)
  let ?x = "hd ?free"
  let ?on = "onFloor (floor_room ?x) ?free"
  let ?r = "hd (sort_key indexOnFloor ?on)"
  have x: "?x \<in> set ?free" using ne by (rule hd_in_set)
  then have on_ne: "?on \<noteq> []" by (auto simp: onFloor_def filter_empty_conv)
  from hd_sort_key_least [OF on_ne, of indexOnFloor]
  have mem: "?r \<in> set ?on" and least: "\<forall>y\<in>set ?on. indexOnFloor ?r \<le> indexOnFloor y"
    by simp_all
  from mem have r: "?r \<in> set rs" "status ?r = Free" "floor_room ?r = floor_room ?x"
    by (auto simp: onFloor_def)
  have idx: "\<forall>q\<in>set rs. status q = Free \<and> floor_room q = floor_room ?r
      \<longrightarrow> indexOnFloor ?r \<le> indexOnFloor q"
    using least r(3) by (auto simp: onFloor_def)
  have lex: "\<forall>q\<in>set rs. status q = Free \<longrightarrow>
      floor_room ?r < floor_room q
      \<or> (floor_room ?r = floor_room q \<and> indexOnFloor ?r \<le> indexOnFloor q)"
    if srt: "sorted (map floor_room rs)"
  proof (intro ballI impI)
    fix q assume q: "q \<in> set rs" "status q = Free"
    from srt have "sorted (map floor_room ?free)" by (rule sorted_filter)
    moreover obtain y ys where free: "?free = y # ys" using ne by (cases ?free) auto
    ultimately have "\<forall>z\<in>set ?free. floor_room ?x \<le> floor_room z" by auto
    with q have "floor_room ?r \<le> floor_room q" by (simp add: r(3))
    with idx q show "floor_room ?r < floor_room q
      \<or> (floor_room ?r = floor_room q \<and> indexOnFloor ?r \<le> indexOnFloor q)"
      by auto
  qed
  from allocateRooms_one_room [OF ne] r idx lex show ?thesis by blast
qed

theorem allocateRooms_one_is_leftmost_of_first_floor_witness:
  "(\<exists>r\<in>set scenario_510_601. status r = Free)
   \<and> sorted (map floor_room scenario_510_601)
   \<and> (\<exists>r. allocateRooms scenario_510_601 1 = Some \<lparr>rooms = [r], totalTravelTime = 0\<rparr>
           \<and> r \<in> set scenario_510_601 \<and> status r = Free
           \<and> floor_room r = floor_room (hd (filter (\<lambda>r. status r = Free) scenario_510_601))
           \<and> (\<forall>q\<in>set scenario_510_601. status q = Free \<and> floor_room q = floor_room r
                  \<longrightarrow> indexOnFloor r \<le> indexOnFloor q)
           \<and> (\<forall>q\<in>set scenario_510_601. status q = Free \<longrightarrow>
                   floor_room r < floor_room q
                   \<or> (floor_room r = floor_room q \<and> indexOnFloor r \<le> indexOnFloor q)))"
proof -
  have h1: "\<exists>r\<in>set scenario_510_601. status r = Free" by code_simp
  have h2: "sorted (map floor_room scenario_510_601)" by code_simp
  from allocateRooms_one_is_leftmost_of_first_floor [OF h1] h1 h2 show ?thesis by blast
qed

text \<open>
  C5 (as amended): with every room booked except rooms 510 and 601, a request for one room
  returns room 510, the free room of the first floor that has one, with travel time 0.
\<close>

theorem allocateRooms_scenario_510_601:
  "map id_room (filter (\<lambda>r. status r = Free) scenario_510_601) = [510, 601]
   \<and> allocateRooms scenario_510_601 1
       = Some \<lparr>rooms = [\<lparr>id_room = 510, floor_room = 5, indexOnFloor = 9, status = Free\<rparr>],
               totalTravelTime = 0\<rparr>"
  by code_simp

text \<open>The result the claim states, room 601, is not what is returned.\<close>

theorem allocateRooms_scenario_not_601:
  "allocateRooms scenario_510_601 1
     \<noteq> Some \<lparr>rooms = [\<lparr>id_room = 601, floor_room = 6, indexOnFloor = 0, status = Free\<rparr>],
              totalTravelTime = 0\<rparr>"
  by code_simp

text \<open>
  C8: \<open>buildHotelRooms\<close> builds 97 rooms, all free, on floors 1 to 10: on each of the floors
  1 to 9 the ten rooms \<open>floor * 100 + position + 1\<close> at the positions 0 to 9, on floor 10
  the seven rooms 1001 to 1007 at the positions 0 to 6; no room number occurs twice.
\<close>

theorem buildHotelRooms_layout:
  "length buildHotelRooms = 97
   \<and> (\<forall>r\<in>set buildHotelRooms. status r = Free \<and> 1 \<le> floor_room r \<and> floor_room r \<le> 10)
   \<and> (\<forall>f\<in>set [1..9].
         map (\<lambda>r. (id_room r, indexOnFloor r)) (filter (\<lambda>r. floor_room r = f) buildHotelRooms)
           = map (\<lambda>i. (f * 100 + (i + 1), i)) [0..9])
   \<and> map (\<lambda>r. (id_room r, indexOnFloor r)) (filter (\<lambda>r. floor_room r = 10) buildHotelRooms)
       = map (\<lambda>i. (1001 + i, i)) [0..6]
   \<and> distinct (map id_room buildHotelRooms)"
  by code_simp

theorem buildHotelRooms_layout_witness:
  "\<lparr>id_room = 1007, floor_room = 10, indexOnFloor = 6, status = Free\<rparr> \<in> set buildHotelRooms
   \<and> (3::int) \<in> set [1..9]
   \<and> status \<lparr>id_room = 1007, floor_room = 10, indexOnFloor = 6, status = Free\<rparr> = Free
   \<and> map (\<lambda>r. (id_room r, indexOnFloor r)) (filter (\<lambda>r. floor_room r = 3) buildHotelRooms)
       = map (\<lambda>i. (3 * 100 + (i + 1), i)) [0..9]"
proof -
  have h1: "\<lparr>id_room = 1007, floor_room = 10, indexOnFloor = 6, status = Free\<rparr>
      \<in> set buildHotelRooms" by code_simp
  have h2: "(3::int) \<in> set [1..9]" by simp
  from buildHotelRooms_layout h1 h2 show ?thesis by blast
qed

section \<open>The cross-floor search\<close>

lemma set_combinations: "set (combinations k xs) = {c. subseq c xs \<and> length c = k}"
  using combinations_subseq subseq_combinations by blast

lemma spec_candidatePool_eq: "spec_candidatePool rs = candidatePool (filter isFree rs)"
  by (simp add: spec_candidatePool_def candidatePool_def sortBy_floor_index)

text \<open>
  C6: when the guards pass and no floor has \<open>cnt\<close> free rooms, \<open>allocateRooms\<close> returns the
  result of \<open>backtrack\<close> on the pool of the first 20 free rooms in the order by floor, then
  position. With \<open>cs\<close> the combinations of \<open>cnt\<close> rooms of the pool in the order of the
  depth-first enumeration (which are all the subsequences of the pool of that length), the
  result is the first combination of least travel time, and its rooms are rooms of the pool.
\<close>

theorem allocateRooms_cross_floor:
  assumes "1 \<le> cnt" "cnt \<le> 5"
    and "cnt \<le> int (length (filter (\<lambda>r. status r = Free) rs))"
    and "\<forall>f. int (length (filter (\<lambda>r. status r = Free \<and> floor_room r = f) rs)) < cnt"
  shows "let pool = spec_candidatePool rs; cs = combinations (nat cnt) pool
         in set cs = {c. subseq c pool \<and> length c = nat cnt}
            \<and> allocateRooms rs cnt = backtrack pool cnt 0 [] None
            \<and> (\<exists>i<length cs.
                  allocateRooms rs cnt
                    = Some \<lparr>rooms = cs ! i, totalTravelTime = totalTravelTimeForRooms (cs ! i)\<rparr>
                  \<and> (\<forall>j<length cs.
                        totalTravelTimeForRooms (cs ! i) \<le> totalTravelTimeForRooms (cs ! j))
                  \<and> (\<forall>j<i. totalTravelTimeForRooms (cs ! i) < totalTravelTimeForRooms (cs ! j))
                  \<and> set (cs ! i) \<subseteq> set pool)"
proof -
  let ?free = "filter isFree rs"
  let ?pool = "spec_candidatePool rs"
  let ?cs = "combinations (nat cnt) ?pool"
  have on: "onFloor f ?free = filter (\<lambda>r. status r = Free \<and> floor_room r = f) rs" for f
    by (simp add: onFloor_def conj_commute)
  have "phase1_cands ?free cnt = []"
    using assms(4) by (simp add: phase1_cands_empty_iff [OF assms(1)] on)
  then have alloc: "allocateRooms rs cnt = fold keep_better ?cs None"
    by (simp add: allocateRooms_guarded [OF assms(1-3)] spec_candidatePool_eq)
  then have bt: "allocateRooms rs cnt = backtrack ?pool cnt 0 [] None"
    by (simp add: backtrack_fold [OF assms(1)])
  have ne: "?cs \<noteq> []"
    unfolding spec_candidatePool_eq using assms(2,3) by (rule pool_combinations_nonempty)
  from fold_keep_better_first_min [OF ne] obtain i where i: "i < length ?cs"
    and res: "fold keep_better ?cs None = Some (mkResult (?cs ! i))"
    and least: "\<forall>j<length ?cs.
        totalTravelTimeForRooms (?cs ! i) \<le> totalTravelTimeForRooms (?cs ! j)"
    and first: "\<forall>j<i. totalTravelTimeForRooms (?cs ! i) < totalTravelTimeForRooms (?cs ! j)"
    by blast
  from i have "?cs ! i \<in> set ?cs" by simp
  then have "subseq (?cs ! i) ?pool" by (simp add: set_combinations)
  then have "mset (?cs ! i) \<subseteq># mset ?pool" by (rule subseq_mset)
  then have sub: "set (?cs ! i) \<subseteq> set ?pool" by (metis set_mset_mono set_mset_mset)
  have "allocateRooms rs cnt
      = Some \<lparr>rooms = ?cs ! i, totalTravelTime = totalTravelTimeForRooms (?cs ! i)\<rparr>"
    by (simp add: alloc res mkResult_def)
  with i least first sub have "\<exists>i<length ?cs.
      allocateRooms rs cnt
        = Some \<lparr>rooms = ?cs ! i, totalTravelTime = totalTravelTimeForRooms (?cs ! i)\<rparr>
      \<and> (\<forall>j<length ?cs. totalTravelTimeForRooms (?cs ! i) \<le> totalTravelTimeForRooms (?cs ! j))
      \<and> (\<forall>j<i. totalTravelTimeForRooms (?cs ! i) < totalTravelTimeForRooms (?cs ! j))
      \<and> set (?cs ! i) \<subseteq> set ?pool"
    by blast
  with bt show ?thesis by (simp add: Let_def set_combinations)
qed

theorem allocateRooms_cross_floor_witness:
  "(1::int) \<le> 2 \<and> (2::int) \<le> 5
   \<and> 2 \<le> int (length (filter (\<lambda>r. status r = Free) onePerFloor))
   \<and> (\<forall>f. int (length (filter (\<lambda>r. status r = Free \<and> floor_room r = f) onePerFloor)) < 2)
   \<and> (let pool = spec_candidatePool onePerFloor; cs = combinations (nat 2) pool
       in set cs = {c. subseq c pool \<and> length c = nat 2}
          \<and> allocateRooms onePerFloor 2 = backtrack pool 2 0 [] None
          \<and> (\<exists>i<length cs.
                allocateRooms onePerFloor 2
                  = Some \<lparr>rooms = cs ! i, totalTravelTime = totalTravelTimeForRooms (cs ! i)\<rparr>
                \<and> (\<forall>j<length cs.
                      totalTravelTimeForRooms (cs ! i) \<le> totalTravelTimeForRooms (cs ! j))
                \<and> (\<forall>j<i. totalTravelTimeForRooms (cs ! i) < totalTravelTimeForRooms (cs ! j))
                \<and> set (cs ! i) \<subseteq> set pool))
   \<and> allocateRooms onePerFloor 2
       = Some \<lparr>rooms = [\<lparr>id_room = 305, floor_room = 3, indexOnFloor = 4, status = Free\<rparr>,
                        \<lparr>id_room = 402, floor_room = 4, indexOnFloor = 1, status = Free\<rparr>],
               totalTravelTime = 5\<rparr>"
proof -
  have h3: "2 \<le> int (length (filter (\<lambda>r. status r = Free) onePerFloor))"
    by (simp add: onePerFloor_def)
  have h4: "\<forall>f. int (length (filter (\<lambda>r. status r = Free \<and> floor_room r = f) onePerFloor)) < 2"
    by (simp add: onePerFloor_def)
  have ev: "allocateRooms onePerFloor 2
       = Some \<lparr>rooms = [\<lparr>id_room = 305, floor_room = 3, indexOnFloor = 4, status = Free\<rparr>,
                        \<lparr>id_room = 402, floor_room = 4, indexOnFloor = 1, status = Free\<rparr>],
               totalTravelTime = 5\<rparr>"
    by code_simp
  have "(1::int) \<le> 2" "(2::int) \<le> 5" by simp_all
  from allocateRooms_cross_floor [OF this h3 h4] h3 h4 ev show ?thesis by simp
qed

end
